theory Spec2Isabelle
  imports Main
begin

section \<open>Strings as Python sees them\<close>

text \<open>
  A Python \<open>str\<close> is modelled as a \<open>string\<close>, read as a sequence of code points
  below 256. \<open>is_space\<close> is \<open>str.isspace\<close> on one such code point: it decides what
  \<open>str.strip()\<close> removes and where \<open>str.split()\<close> cuts.
\<close>

definition is_space :: "char \<Rightarrow> bool" where
  "is_space c = ((of_char c :: nat) \<in> {9, 10, 11, 12, 13, 28, 29, 30, 31, 32, 133, 160})"

definition strip :: "string \<Rightarrow> string" where
  "strip s = rev (dropWhile is_space (rev (dropWhile is_space s)))"

text \<open>\<open>s.split()\<close>: the maximal runs of characters that are not whitespace.\<close>

fun split_ws_acc :: "string \<Rightarrow> string \<Rightarrow> string list" where
  "split_ws_acc cur [] = (if cur = [] then [] else [cur])"
| "split_ws_acc cur (c # cs) =
     (if is_space c
      then (if cur = [] then split_ws_acc [] cs else cur # split_ws_acc [] cs)
      else split_ws_acc (cur @ [c]) cs)"

definition split_ws :: "string \<Rightarrow> string list" where
  "split_ws s = split_ws_acc [] s"

text \<open>
  \<open>re.sub(r'<[^>]+>', '', s)\<close>. At a \<open><\<close> the pattern matches when at least one
  character other than \<open>>\<close> follows and a \<open>>\<close> closes the run; \<open>tag_len\<close> is the
  number of characters after the \<open><\<close> that such a match consumes. The scan resumes
  behind a match and one character further where there is none.
\<close>

definition tag_len :: "string \<Rightarrow> nat option" where
  "tag_len cs =
     (let body = takeWhile (\<lambda>c. c \<noteq> CHR ''>'') cs
      in if body \<noteq> [] \<and> length body < length cs then Some (Suc (length body)) else None)"

fun sub_tags_skip :: "nat \<Rightarrow> string \<Rightarrow> string" where
  "sub_tags_skip k [] = []"
| "sub_tags_skip (Suc k) (c # cs) = sub_tags_skip k cs"
| "sub_tags_skip 0 (c # cs) =
     (if c = CHR ''<''
      then (case tag_len cs of
              Some n \<Rightarrow> sub_tags_skip n cs
            | None \<Rightarrow> c # sub_tags_skip 0 cs)
      else c # sub_tags_skip 0 cs)"

definition sub_tags :: "string \<Rightarrow> string" where
  "sub_tags s = sub_tags_skip 0 s"

text \<open>
  \<open>count_words_in_text\<close> of main.py, which is also the body of
  \<open>SubtitleSegment.word_count\<close> in timing_redistributor.py.
\<close>

definition count_words_in_text :: "string \<Rightarrow> nat" where
  "count_words_in_text t =
     (let clean_text = sub_tags (strip t);
          words = split_ws clean_text
      in length (filter (\<lambda>word. strip word \<noteq> []) words))"

section \<open>Segments\<close>

text \<open>
  The dataclass \<open>SubtitleSegment\<close> of timing_redistributor.py and the dictionary with
  the keys \<open>number\<close>, \<open>start_ms\<close>, \<open>end_ms\<close>, \<open>text\<close> of main.py.
\<close>

record segment =
  number :: int
  start_ms :: int
  end_ms :: int
  "text" :: string

definition word_count :: "segment \<Rightarrow> nat" where
  "word_count seg = count_words_in_text (text seg)"

section \<open>Continuity grouper\<close>

text \<open>
  The loop of \<open>group_continuous_subtitles\<close> (and of
  \<open>group_continuous_subtitles_for_timing\<close>): \<open>prev\<close> is \<open>segments[i-1]\<close>, the list
  argument holds \<open>segments[i:]\<close>.
\<close>

fun group_loop ::
  "int \<Rightarrow> segment \<Rightarrow> segment list \<Rightarrow> segment list \<Rightarrow> segment list list \<Rightarrow> segment list list"
where
  "group_loop max_gap_ms prev [] current_group groups =
     (if current_group \<noteq> [] then groups @ [current_group] else groups)"
| "group_loop max_gap_ms prev (curr_segment # rest) current_group groups =
     (let gap_ms = start_ms curr_segment - end_ms prev
      in if gap_ms \<le> max_gap_ms
         then group_loop max_gap_ms curr_segment rest (current_group @ [curr_segment]) groups
         else group_loop max_gap_ms curr_segment rest [curr_segment] (groups @ [current_group]))"

definition group_continuous_subtitles :: "segment list \<Rightarrow> int \<Rightarrow> segment list list" where
  "group_continuous_subtitles segments max_gap_ms =
     (case segments of
        [] \<Rightarrow> []
      | first # rest \<Rightarrow> group_loop max_gap_ms first rest [first] [])"

text \<open>
  Two predicates on the grouper's output: within a group every gap is at most
  \<open>max_gap_ms\<close>, and between the last segment of a group and the first of the next
  the gap exceeds it.
\<close>

fun continuous :: "int \<Rightarrow> segment list \<Rightarrow> bool" where
  "continuous mg (a # b # rest) = (start_ms b - end_ms a \<le> mg \<and> continuous mg (b # rest))"
| "continuous mg segs = True"

fun separated :: "int \<Rightarrow> segment list list \<Rightarrow> bool" where
  "separated mg (g # h # rest) = (start_ms (hd h) - end_ms (last g) > mg \<and> separated mg (h # rest))"
| "separated mg gs = True"

section \<open>Proportional timing redistributor\<close>

text \<open>
  Both redistributors compute \<open>int(duration * (words / total_words))\<close> in double
  precision. The rounding of that product is not reproduced here: the computation
  enters as the parameter \<open>pd\<close> (called with the duration, the word count and the
  total), and every statement below holds for every \<open>pd\<close>. \<open>trunc_proportion\<close> is
  the value in exact arithmetic, truncated towards zero as \<open>int()\<close> does.
\<close>

type_synonym proportion = "int \<Rightarrow> nat \<Rightarrow> nat \<Rightarrow> int"

definition trunc_proportion :: proportion where
  "trunc_proportion d w t =
     (if 0 \<le> d then (d * int w) div int t else - ((- d * int w) div int t))"

definition set_last_end :: "int \<Rightarrow> segment list \<Rightarrow> segment list" where
  "set_last_end group_end_ms segs =
     (if segs = [] then segs
      else butlast segs @ [(last segs)\<lparr>end_ms := group_end_ms\<rparr>])"

subsection \<open>timing\_redistributor.py\<close>

fun tr_loop ::
  "proportion \<Rightarrow> int \<Rightarrow> nat \<Rightarrow> int \<Rightarrow> int \<Rightarrow> int \<Rightarrow> (segment \<times> nat) list \<Rightarrow> segment list"
where
  "tr_loop pd total_duration_ms total_words min_duration_ms group_end_ms current_start_ms [] = []"
| "tr_loop pd total_duration_ms total_words min_duration_ms group_end_ms current_start_ms
     ((seg, words) # rest) =
     (let segment_end_ms =
        (if rest = [] then group_end_ms
         else
           let proportional_duration = pd total_duration_ms words total_words;
               actual_duration = max proportional_duration min_duration_ms;
               e = current_start_ms + actual_duration
           in if e > group_end_ms then group_end_ms else e)
      in seg\<lparr>start_ms := current_start_ms, end_ms := segment_end_ms\<rparr>
         # tr_loop pd total_duration_ms total_words min_duration_ms group_end_ms
             segment_end_ms rest)"

definition tr_redistribute_timing_in_group ::
  "proportion \<Rightarrow> segment list \<Rightarrow> int \<Rightarrow> segment list"
where
  "tr_redistribute_timing_in_group pd grp min_duration_ms =
     (if length grp \<le> 1 then grp
      else
        let word_counts = map word_count grp;
            total_words = sum_list word_counts
        in if total_words = 0 then grp
           else
             let group_start_ms = start_ms (hd grp);
                 group_end_ms = end_ms (last grp);
                 total_duration_ms = group_end_ms - group_start_ms
             in if total_duration_ms \<le> 0 then grp
                else set_last_end group_end_ms
                       (tr_loop pd total_duration_ms total_words min_duration_ms
                          group_end_ms group_start_ms (zip grp word_counts)))"

subsection \<open>main.py\<close>

fun rt_loop ::
  "proportion \<Rightarrow> int \<Rightarrow> nat \<Rightarrow> int \<Rightarrow> int \<Rightarrow> int \<Rightarrow> int \<Rightarrow> (segment \<times> nat) list \<Rightarrow> segment list"
where
  "rt_loop pd content_duration_ms total_words min_duration_ms gap_ms group_end_ms
     current_start_ms [] = []"
| "rt_loop pd content_duration_ms total_words min_duration_ms gap_ms group_end_ms
     current_start_ms ((seg, words) # rest) =
     (let segment_end_ms =
        (if rest = [] then group_end_ms
         else
           let proportional_duration = pd content_duration_ms words total_words;
               actual_duration = max proportional_duration min_duration_ms;
               e = current_start_ms + actual_duration;
               remaining_segments = int (length rest);
               remaining_time_needed =
                 remaining_segments * min_duration_ms + remaining_segments * gap_ms;
               max_allowed_end = group_end_ms - remaining_time_needed
           in if e > max_allowed_end then max_allowed_end else e);
          redistributed_segment =
            seg\<lparr>start_ms := current_start_ms,
                end_ms := max (current_start_ms + min_duration_ms) segment_end_ms\<rparr>
      in redistributed_segment
         # rt_loop pd content_duration_ms total_words min_duration_ms gap_ms group_end_ms
             (end_ms redistributed_segment + gap_ms) rest)"

text \<open>
  One step of the final overlap check on the pair \<open>(curr_seg, next_seg)\<close>, and the
  pass over all adjacent pairs. The pass works on the list in place, so the second
  component of a step is the \<open>curr_seg\<close> of the next one.
\<close>

definition fix_pair :: "int \<Rightarrow> int \<Rightarrow> segment \<Rightarrow> segment \<Rightarrow> segment \<times> segment" where
  "fix_pair min_duration_ms gap_ms curr_seg next_seg =
     (if end_ms curr_seg \<ge> start_ms next_seg
      then
        let c1 = curr_seg\<lparr>end_ms := start_ms next_seg - gap_ms\<rparr>
        in if end_ms c1 - start_ms c1 < min_duration_ms
           then
             let c2 = c1\<lparr>end_ms := start_ms c1 + min_duration_ms\<rparr>
             in if end_ms c2 + gap_ms > start_ms next_seg
                then (c2, next_seg\<lparr>start_ms := end_ms c2 + gap_ms\<rparr>)
                else (c2, next_seg)
           else (c1, next_seg)
      else (curr_seg, next_seg))"

fun fix_overlaps :: "int \<Rightarrow> int \<Rightarrow> segment list \<Rightarrow> segment list" where
  "fix_overlaps min_duration_ms gap_ms (curr_seg # next_seg # rest) =
     (case fix_pair min_duration_ms gap_ms curr_seg next_seg of
        (c, n) \<Rightarrow> c # fix_overlaps min_duration_ms gap_ms (n # rest))"
| "fix_overlaps min_duration_ms gap_ms segs = segs"

definition redistribute_timing_in_group ::
  "proportion \<Rightarrow> segment list \<Rightarrow> int \<Rightarrow> int \<Rightarrow> segment list"
where
  "redistribute_timing_in_group pd grp min_duration_ms gap_ms0 =
     (if length grp \<le> 1 then grp
      else
        let word_counts = map word_count grp;
            total_words = sum_list word_counts
        in if total_words = 0 then grp
           else
             let group_start_ms = start_ms (hd grp);
                 group_end_ms = end_ms (last grp);
                 total_available_ms = group_end_ms - group_start_ms
             in if total_available_ms \<le> 0 then grp
                else
                  let num_gaps = int (length grp) - 1;
                      total_gap_ms = num_gaps * gap_ms0;
                      content0 = total_available_ms - total_gap_ms;
                      gap_ms =
                        (if content0 \<le> 0
                         then max 10 (total_available_ms div (int (length grp) * 4))
                         else gap_ms0);
                      content_duration_ms =
                        (if content0 \<le> 0 then total_available_ms - num_gaps * gap_ms
                         else content0);
                      redistributed_segments =
                        rt_loop pd content_duration_ms total_words min_duration_ms gap_ms
                          group_end_ms group_start_ms (zip grp word_counts)
                  in fix_overlaps min_duration_ms gap_ms
                       (set_last_end group_end_ms redistributed_segments))"

text \<open>Adjacent segments of a list do not overlap: each starts no earlier than its
  predecessor ends.\<close>

fun no_overlap :: "segment list \<Rightarrow> bool" where
  "no_overlap (a # b # rest) = (end_ms a \<le> start_ms b \<and> no_overlap (b # rest))"
| "no_overlap segs = True"

section \<open>Timestamp codec\<close>

text \<open>
  Exceptions are values. Both \<open>parse_timestamp\<close> functions catch \<open>ValueError\<close> and
  \<open>IndexError\<close> only; any other exception would leave them.
\<close>

datatype py_error = ValueError | IndexError | KeyError | TypeError

definition is_digit :: "char \<Rightarrow> bool" where
  "is_digit c = (48 \<le> (of_char c :: nat) \<and> (of_char c :: nat) \<le> 57)"

definition digit_val :: "char \<Rightarrow> nat" where
  "digit_val c = of_char c - 48"

text \<open>
  The digits of an \<open>int()\<close> literal: decimal digits, with single underscores allowed
  between two digits. The flag tells whether the previous character was a digit.
\<close>

fun parse_digits :: "bool \<Rightarrow> nat \<Rightarrow> string \<Rightarrow> nat option" where
  "parse_digits prev acc [] = (if prev then Some acc else None)"
| "parse_digits prev acc (c # cs) =
     (if is_digit c then parse_digits True (acc * 10 + digit_val c) cs
      else if c = CHR ''_'' \<and> prev then parse_digits False acc cs
      else None)"

text \<open>
  \<open>int(s)\<close> for a string: surrounding whitespace is dropped, one sign is allowed, and
  \<open>None\<close> stands for the \<open>ValueError\<close> that \<open>int\<close> raises on anything else.
\<close>

definition py_int :: "string \<Rightarrow> int option" where
  "py_int s =
     (case strip s of
        [] \<Rightarrow> None
      | c # cs \<Rightarrow>
          if c = CHR ''-'' then map_option (\<lambda>n. - int n) (parse_digits False 0 cs)
          else if c = CHR ''+'' then map_option int (parse_digits False 0 cs)
          else map_option int (parse_digits False 0 (c # cs)))"

text \<open>\<open>s.split(sep)\<close> for a separator of one character.\<close>

fun split_on :: "char \<Rightarrow> string \<Rightarrow> string list" where
  "split_on sep [] = [[]]"
| "split_on sep (c # cs) =
     (if c = sep then [] # split_on sep cs
      else (case split_on sep cs of
              p # ps \<Rightarrow> (c # p) # ps
            | [] \<Rightarrow> [[c]]))"

text \<open>
  The body of the \<open>try\<close> block, common to both versions up to the range check: the
  four fields, or the \<open>ValueError\<close> of a failed unpacking or of a failed \<open>int\<close>.
\<close>

definition timestamp_fields :: "string \<Rightarrow> py_error + (int \<times> int \<times> int \<times> int)" where
  "timestamp_fields timestamp_str =
     (case split_on CHR '','' timestamp_str of
        [time_part, ms_part] \<Rightarrow>
          (case map py_int (split_on CHR '':'' time_part) of
             [Some hours, Some minutes, Some seconds] \<Rightarrow>
               (case py_int ms_part of
                  Some milliseconds \<Rightarrow> Inr (hours, minutes, seconds, milliseconds)
                | None \<Rightarrow> Inl ValueError)
           | _ \<Rightarrow> Inl ValueError)
      | _ \<Rightarrow> Inl ValueError)"

definition total_ms :: "int \<Rightarrow> int \<Rightarrow> int \<Rightarrow> int \<Rightarrow> int" where
  "total_ms hours minutes seconds milliseconds =
     (hours * 3600 + minutes * 60 + seconds) * 1000 + milliseconds"

text \<open>The \<open>except (ValueError, IndexError)\<close> clause, which returns 0.\<close>

definition catch_parse_errors :: "py_error + int \<Rightarrow> py_error + int" where
  "catch_parse_errors r =
     (case r of
        Inl ValueError \<Rightarrow> Inr 0
      | Inl IndexError \<Rightarrow> Inr 0
      | Inl e \<Rightarrow> Inl e
      | Inr v \<Rightarrow> Inr v)"

text \<open>\<open>parse_timestamp\<close> of timing_redistributor.py.\<close>

definition tr_parse_timestamp_body :: "string \<Rightarrow> py_error + int" where
  "tr_parse_timestamp_body timestamp_str =
     (case timestamp_fields timestamp_str of
        Inl e \<Rightarrow> Inl e
      | Inr (hours, minutes, seconds, milliseconds) \<Rightarrow>
          Inr (max 0 (total_ms hours minutes seconds milliseconds)))"

definition tr_parse_timestamp :: "string \<Rightarrow> py_error + int" where
  "tr_parse_timestamp timestamp_str = catch_parse_errors (tr_parse_timestamp_body timestamp_str)"

text \<open>\<open>parse_timestamp\<close> of main.py, with its range validation.\<close>

definition parse_timestamp_body :: "string \<Rightarrow> py_error + int" where
  "parse_timestamp_body timestamp_str =
     (case timestamp_fields timestamp_str of
        Inl e \<Rightarrow> Inl e
      | Inr (hours, minutes, seconds, milliseconds) \<Rightarrow>
          if hours < 0 \<or> minutes < 0 \<or> minutes > 59 \<or> seconds < 0 \<or> seconds > 59
             \<or> milliseconds < 0 \<or> milliseconds > 999
          then Inr 0
          else Inr (max 0 (total_ms hours minutes seconds milliseconds)))"

definition parse_timestamp :: "string \<Rightarrow> py_error + int" where
  "parse_timestamp timestamp_str = catch_parse_errors (parse_timestamp_body timestamp_str)"

text \<open>
  A field written with decimal digits only, and the number it denotes. CPython from
  3.11 on refuses to convert more than 4300 digits, hence the bound.
\<close>

definition digit_field :: "string \<Rightarrow> bool" where
  "digit_field ds = (ds \<noteq> [] \<and> length ds \<le> 4300 \<and> list_all is_digit ds)"

definition decimal :: "string \<Rightarrow> nat" where
  "decimal ds = foldl (\<lambda>acc c. acc * 10 + digit_val c) 0 ds"

section \<open>Validation of a translation response\<close>

text \<open>
  The parsed JSON value that \<open>validate_translation_structure\<close> receives. A dictionary
  is the list of its items; \<open>map_of\<close> looks a key up. Numbers are integers here: the
  function only asks whether a value is truthy and whether it is a string.
\<close>

datatype pyval =
    PNone
  | PBool bool
  | PInt int
  | PStr string
  | PList "pyval list"
  | PDict "(string \<times> pyval) list"

fun truthy :: "pyval \<Rightarrow> bool" where
  "truthy PNone = False"
| "truthy (PBool b) = b"
| "truthy (PInt n) = (n \<noteq> 0)"
| "truthy (PStr s) = (s \<noteq> [])"
| "truthy (PList xs) = (xs \<noteq> [])"
| "truthy (PDict items) = (items \<noteq> [])"

fun is_str :: "pyval \<Rightarrow> bool" where
  "is_str (PStr s) = True"
| "is_str v = False"

fun is_dict :: "pyval \<Rightarrow> bool" where
  "is_dict (PDict items) = True"
| "is_dict v = False"

text \<open>\<open>d.keys()\<close>, \<open>k in d\<close> and \<open>d.get(k)\<close> (with \<open>None\<close> for a missing key).\<close>

fun dict_keys :: "pyval \<Rightarrow> string set" where
  "dict_keys (PDict items) = set (map fst items)"
| "dict_keys v = {}"

fun dict_lookup :: "pyval \<Rightarrow> string \<Rightarrow> pyval option" where
  "dict_lookup (PDict items) k = map_of items k"
| "dict_lookup v k = None"

definition dict_get :: "pyval \<Rightarrow> string \<Rightarrow> pyval" where
  "dict_get d k = (case dict_lookup d k of None \<Rightarrow> PNone | Some v \<Rightarrow> v)"

text \<open>
  The second component of the result. The message for missing segments formats the
  set \<open>missing\<close>; the message for a wrong type names the segment found first.
\<close>

datatype message =
    Not_A_Dictionary
  | Marked_Unsuccessful
  | Missing_Segments "string set"
  | Not_A_String string
  | Validation_Passed

text \<open>
  \<open>validate_translation_structure\<close> of main.py and of transcribe\_api.py, which are the
  same text. Of \<open>original_segments\<close> only the keys are read; \<open>original_keys\<close> lists
  them in the order in which the loop over the set \<open>expected_nums\<close> visits them.
\<close>

definition validate_translation_structure :: "string list \<Rightarrow> pyval \<Rightarrow> bool \<times> message" where
  "validate_translation_structure original_keys translated_data =
     (if \<not> is_dict translated_data then (False, Not_A_Dictionary)
      else if \<not> truthy (dict_get translated_data ''success'') then (False, Marked_Unsuccessful)
      else
        let expected_nums = set original_keys;
            actual_nums = {k \<in> dict_keys translated_data. k \<notin> {''success'', ''comment''}}
        in if \<not> expected_nums \<subseteq> actual_nums
           then (False, Missing_Segments (expected_nums - actual_nums))
           else
             (case find (\<lambda>num. num \<in> dict_keys translated_data
                               \<and> \<not> is_str (dict_get translated_data num)) original_keys of
                Some num \<Rightarrow> (False, Not_A_String num)
              | None \<Rightarrow> (True, Validation_Passed)))"

text \<open>
  \<open>s.split(sep)\<close> for a separator of any positive length: the scan goes from left to
  right and resumes behind each occurrence.
\<close>

fun split_str :: "string \<Rightarrow> string \<Rightarrow> string list" where
  "split_str sep [] = [[]]"
| "split_str sep (c # cs) =
     (if take (length sep) (c # cs) = sep
      then [] # split_str sep (drop (length sep - 1) cs)
      else (case split_str sep cs of
              p # ps \<Rightarrow> (c # p) # ps
            | [] \<Rightarrow> [[c]]))"

text \<open>
  \<open>str(n)\<close> for a number that is not negative, and the format specifications
  \<open>{n:02d}\<close> and \<open>{n:03d}\<close>, which pad with zeros on the left up to the width.
\<close>

fun str_of_nat :: "nat \<Rightarrow> string" where
  "str_of_nat n =
     (if n < 10 then [char_of (48 + n)]
      else str_of_nat (n div 10) @ [char_of (48 + n mod 10)])"

definition zero_pad :: "nat \<Rightarrow> nat \<Rightarrow> string" where
  "zero_pad width n =
     replicate (width - length (str_of_nat n)) CHR ''0'' @ str_of_nat n"

text \<open>\<open>format_timestamp\<close> of main.py, which clamps every field.\<close>

definition format_timestamp :: "int \<Rightarrow> string" where
  "format_timestamp total_ms0 =
     (let total_ms = (if total_ms0 < 0 then 0 else total_ms0);
          milliseconds = total_ms mod 1000;
          total_seconds = total_ms div 1000;
          hours = total_seconds div 3600;
          minutes = (total_seconds mod 3600) div 60;
          seconds = total_seconds mod 60;
          hours = max 0 (min 99 hours);
          minutes = max 0 (min 59 minutes);
          seconds = max 0 (min 59 seconds);
          milliseconds = max 0 (min 999 milliseconds)
      in zero_pad 2 (nat hours) @ '':'' @ zero_pad 2 (nat minutes) @ '':''
         @ zero_pad 2 (nat seconds) @ '','' @ zero_pad 3 (nat milliseconds))"

section \<open>Long-segment splitter: timing of a split\<close>

text \<open>
  An entry of the list \<open>segments\<close> in \<open>split_advanced_segments\<close>: the dictionary with
  the keys \<open>num\<close>, \<open>timestamp\<close> and \<open>text\<close>. The second child of a split is numbered
  \<open>num + 0.5\<close>.
\<close>

datatype seg_num = Num int | Num_And_Half int

record entry =
  num :: seg_num
  timestamp :: string
  entry_text :: string

fun add_half :: "seg_num \<Rightarrow> seg_num" where
  "add_half (Num n) = Num_And_Half n"
| "add_half (Num_And_Half n) = Num (n + 1)"

definition min_segment_duration :: int where
  "min_segment_duration = 200"

definition required_total_duration :: int where
  "required_total_duration = min_segment_duration * 2 + 100"

definition split_gap_ms :: int where
  "split_gap_ms = 30"

text \<open>
  The part of the loop body of \<open>split_advanced_segments\<close> that decides what a
  segment contributes to \<open>new_segments\<close> once a split point was found
  (\<open>split_successful\<close> is true and \<open>first_part\<close>, \<open>second_part\<close> are set): the
  timestamp is taken apart, the duration checks are made, and either the segment
  itself or its two children are appended. The parameter \<open>pd\<close> stands for
  \<open>int((first_words / total_words) * available_duration)\<close>.
\<close>

definition split_timing :: "proportion \<Rightarrow> int \<Rightarrow> nat \<Rightarrow> nat \<Rightarrow> int \<times> int" where
  "split_timing pd available_duration first_words second_words =
     (let total_words = first_words + second_words
      in if total_words > 0
         then
           let ideal_first_duration = pd available_duration first_words total_words;
               first_duration = max min_segment_duration ideal_first_duration;
               second_duration = available_duration - first_duration;
               first_duration =
                 (if second_duration < min_segment_duration
                  then available_duration - min_segment_duration else first_duration);
               first_duration =
                 (if first_duration < min_segment_duration
                  then available_duration div 2 else first_duration)
           in (first_duration, first_duration + split_gap_ms)
         else
           let first_duration = max min_segment_duration (available_duration div 2)
           in (first_duration, first_duration + split_gap_ms))"

definition emit_split :: "proportion \<Rightarrow> entry \<Rightarrow> string \<Rightarrow> string \<Rightarrow> py_error + entry list" where
  "emit_split pd segment first_part second_part =
     (case split_str '' --> '' (timestamp segment) of
        [start_time, end_time] \<Rightarrow>
          (case parse_timestamp start_time of
             Inl e \<Rightarrow> Inl e
           | Inr seg_start \<Rightarrow>
          (case parse_timestamp end_time of
             Inl e \<Rightarrow> Inl e
           | Inr seg_end \<Rightarrow>
             let total_duration = seg_end - seg_start
             in if total_duration < required_total_duration then Inr [segment]
                else
                  let first_words = length (split_ws first_part);
                      second_words = length (split_ws second_part);
                      available_duration = total_duration - split_gap_ms
                  in if available_duration \<le> min_segment_duration * 2 then Inr [segment]
                     else
                       (case split_timing pd available_duration first_words second_words of
                          (first_offset, second_offset) \<Rightarrow>
                            let first_end_time = seg_start + first_offset;
                                second_start_time = seg_start + second_offset
                            in if first_end_time \<le> seg_start \<or> second_start_time \<ge> seg_end
                               then Inr [segment]
                               else if first_end_time = seg_start then Inr [segment]
                               else if second_start_time = seg_end then Inr [segment]
                               else Inr
                                 [\<lparr>num = num segment,
                                   timestamp = start_time @ '' --> ''
                                               @ format_timestamp first_end_time,
                                   entry_text = first_part\<rparr>,
                                  \<lparr>num = add_half (num segment),
                                   timestamp = format_timestamp second_start_time
                                               @ '' --> '' @ end_time,
                                   entry_text = second_part\<rparr>])))
      | _ \<Rightarrow> Inl ValueError)"

section \<open>Text redistribution pass\<close>

text \<open>\<open>sep.join(xs)\<close>.\<close>

fun py_join :: "string \<Rightarrow> string list \<Rightarrow> string" where
  "py_join sep [] = []"
| "py_join sep [x] = x"
| "py_join sep (x # y # ys) = x @ sep @ py_join sep (y # ys)"

text \<open>
  \<open>redistribute_original_text\<close> computes \<open>int((i + 1) * words_per_segment)\<close> with
  \<open>words_per_segment = len(original_words) / total_segments\<close> in double precision.
  The computation enters as the parameter \<open>we\<close>, called with \<open>i + 1\<close>, the number of
  words and the number of segments; \<open>exact_words_end\<close> is its value in exact
  arithmetic.
\<close>

type_synonym words_end = "nat \<Rightarrow> nat \<Rightarrow> nat \<Rightarrow> nat"

definition exact_words_end :: words_end where
  "exact_words_end k total_words total_segments = (k * total_words) div total_segments"

text \<open>
  The loop over \<open>processed_segments\<close>, a list of pairs of \<open>num\<close> and \<open>timestamp\<close>:
  the result is the list \<open>redistributed_segments\<close> and the final \<open>word_index\<close>.
\<close>

fun rot_loop ::
  "words_end \<Rightarrow> nat \<Rightarrow> string list \<Rightarrow> nat \<Rightarrow> nat \<Rightarrow> (int \<times> string) list \<Rightarrow> entry list \<times> nat"
where
  "rot_loop we total_segments original_words i word_index [] = ([], word_index)"
| "rot_loop we total_segments original_words i word_index ((n, ts) # rest) =
     (let expected_words_end = we (i + 1) (length original_words) total_segments;
          segment_words =
            (if expected_words_end > length original_words
             then drop word_index original_words
             else take (expected_words_end - word_index) (drop word_index original_words));
          segment_text = strip (py_join '' '' segment_words);
          take_one = (segment_text = [] \<and> word_index < length original_words);
          segment_text' = (if take_one then original_words ! word_index else segment_text);
          word_index' =
            (if take_one then word_index + 1
             else if segment_words \<noteq> [] then expected_words_end
             else word_index);
          emitted =
            (if segment_text' \<noteq> []
             then [\<lparr>num = Num n, timestamp = ts, entry_text = segment_text'\<rparr>]
             else [])
      in case rot_loop we total_segments original_words (i + 1) word_index' rest of
           (later, final_index) \<Rightarrow> (emitted @ later, final_index))"

text \<open>
  \<open>redistribute_original_text\<close> of main.py from the point where the two transcripts
  are parsed and neither is empty, up to the list that is rendered: the words of the
  original texts, the loop, and the words that remain, which go to the last segment.
\<close>

definition redistribute_original_text ::
  "words_end \<Rightarrow> string list \<Rightarrow> (int \<times> string) list \<Rightarrow> entry list"
where
  "redistribute_original_text we original_texts processed_segments =
     (let full_original_text = py_join '' '' original_texts;
          original_words = split_ws full_original_text;
          total_segments = length processed_segments
      in case rot_loop we total_segments original_words 0 0 processed_segments of
           (redistributed_segments, word_index) \<Rightarrow>
             if word_index < length original_words
             then
               let remaining_words = drop word_index original_words
               in if redistributed_segments \<noteq> []
                  then butlast redistributed_segments
                       @ [(last redistributed_segments)
                            \<lparr>entry_text := entry_text (last redistributed_segments)
                                           @ '' '' @ py_join '' '' remaining_words\<rparr>]
                  else [\<lparr>num = Num (int (length processed_segments)),
                         timestamp = snd (last processed_segments),
                         entry_text = py_join '' '' remaining_words\<rparr>]
             else redistributed_segments)"

text \<open>
  The number of words that the specification gives to segment \<open>i\<close>:
  \<open>round((i+1)*W/n) - round(i*W/n)\<close>, with Python's \<open>round\<close>, which rounds a half to
  the even neighbour.
\<close>

definition py_round_div :: "nat \<Rightarrow> nat \<Rightarrow> nat" where
  "py_round_div a b =
     (let q = a div b; r = a mod b
      in if 2 * r < b then q
         else if 2 * r > b then q + 1
         else if even q then q else q + 1)"

definition rounded_word_count :: "nat \<Rightarrow> nat \<Rightarrow> nat \<Rightarrow> nat" where
  "rounded_word_count i total_words total_segments =
     py_round_div ((i + 1) * total_words) total_segments
     - py_round_div (i * total_words) total_segments"

text \<open>The start of segment \<open>i\<close> in the word list when every segment ends where
  \<open>we\<close> says.\<close>

definition words_start :: "words_end \<Rightarrow> nat \<Rightarrow> nat \<Rightarrow> nat \<Rightarrow> nat" where
  "words_start we i total_words total_segments =
     (if i = 0 then 0 else we i total_words total_segments)"

text \<open>
  What the loop appends when every segment takes the words from the current index up
  to its computed end: used to describe the loop's result.
\<close>

fun assigned ::
  "words_end \<Rightarrow> nat \<Rightarrow> string list \<Rightarrow> nat \<Rightarrow> nat \<Rightarrow> (int \<times> string) list \<Rightarrow> entry list"
where
  "assigned we total_segments original_words i word_index [] = []"
| "assigned we total_segments original_words i word_index ((n, ts) # rest) =
     \<lparr>num = Num n, timestamp = ts,
      entry_text = py_join '' ''
        (take (we (i + 1) (length original_words) total_segments - word_index)
           (drop word_index original_words))\<rparr>
     # assigned we total_segments original_words (i + 1)
         (we (i + 1) (length original_words) total_segments) rest"

definition wordlike :: "string \<Rightarrow> bool" where
  "wordlike w = (w \<noteq> [] \<and> \<not> is_space (hd w) \<and> \<not> is_space (last w))"

section \<open>Properties of the redistributor\<close>

lemma set_last_end_length [simp]: "length (set_last_end e xs) = length xs"
  by (cases xs rule: rev_cases) (simp_all add: set_last_end_def)

lemma tr_loop_length [simp]:
  "length (tr_loop pd d tw md ge cur xs) = length xs"
  by (induction xs arbitrary: cur) (auto simp: Let_def)

lemma rt_loop_length [simp]:
  "length (rt_loop pd d tw md gap ge cur xs) = length xs"
  by (induction xs arbitrary: cur) (auto simp: Let_def)

lemma tr_loop_hd_start:
  "xs \<noteq> [] \<Longrightarrow> start_ms (hd (tr_loop pd d tw md ge cur xs)) = cur"
  by (cases xs) (auto simp: Let_def)

lemma rt_loop_hd_start:
  "xs \<noteq> [] \<Longrightarrow> start_ms (hd (rt_loop pd d tw md gap ge cur xs)) = cur"
  by (cases xs) (auto simp: Let_def)

lemma set_last_end_last:
  "xs \<noteq> [] \<Longrightarrow> end_ms (last (set_last_end e xs)) = e"
  by (simp add: set_last_end_def)

lemma set_last_end_hd_start:
  "start_ms (hd (set_last_end e xs)) = start_ms (hd xs)"
  by (cases xs rule: rev_cases) (auto simp: set_last_end_def hd_append)

lemma fix_pair_fst_start: "start_ms (fst (fix_pair md gap c n)) = start_ms c"
  by (simp add: fix_pair_def Let_def)

lemma fix_pair_snd_end: "end_ms (snd (fix_pair md gap c n)) = end_ms n"
  by (simp add: fix_pair_def Let_def)

lemma fix_pair_no_overlap:
  "0 \<le> gap \<Longrightarrow> end_ms (fst (fix_pair md gap c n)) \<le> start_ms (snd (fix_pair md gap c n))"
  by (simp add: fix_pair_def Let_def)

lemma fix_overlaps_length [simp]: "length (fix_overlaps md gap xs) = length xs"
  by (induction md gap xs rule: fix_overlaps.induct) (auto split: prod.splits)

lemma fix_overlaps_hd_start:
  "start_ms (hd (fix_overlaps md gap xs)) = start_ms (hd xs)"
proof (cases xs)
  case Nil then show ?thesis by simp
next
  case (Cons c ys)
  then show ?thesis
    using fix_pair_fst_start [of md gap c "hd ys"]
    by (cases ys) (auto split: prod.splits)
qed

lemma fix_overlaps_last_end:
  "end_ms (last (fix_overlaps md gap xs)) = end_ms (last xs)"
proof (induction md gap xs rule: fix_overlaps.induct)
  case (1 md gap c n rest)
  obtain c' n' where p: "fix_pair md gap c n = (c', n')" by (cases "fix_pair md gap c n")
  have e: "end_ms n' = end_ms n" using fix_pair_snd_end [of md gap c n] p by simp
  have ne: "fix_overlaps md gap (n' # rest) \<noteq> []"
    using fix_overlaps_length [of md gap "n' # rest"] by (metis length_0_conv list.distinct(1))
  have "end_ms (last (fix_overlaps md gap (n' # rest))) = end_ms (last (n' # rest))"
    using 1 p by simp
  also have "\<dots> = end_ms (last (n # rest))" using e by (cases rest) auto
  finally show ?case using p ne by simp
qed simp_all

lemma fix_overlaps_no_overlap:
  "0 \<le> gap \<Longrightarrow> no_overlap (fix_overlaps md gap xs)"
proof (induction md gap xs rule: fix_overlaps.induct)
  case (1 md gap c n rest)
  obtain c' n' where p: "fix_pair md gap c n = (c', n')" by (cases "fix_pair md gap c n")
  have le: "end_ms c' \<le> start_ms n'" using fix_pair_no_overlap [OF 1(2), of md c n] p by simp
  have ih: "no_overlap (fix_overlaps md gap (n' # rest))" using 1 p by simp
  have hs: "start_ms (hd (fix_overlaps md gap (n' # rest))) = start_ms n'"
    using fix_overlaps_hd_start [of md gap "n' # rest"] by simp
  obtain y ys where f: "fix_overlaps md gap (n' # rest) = y # ys"
    using fix_overlaps_length [of md gap "n' # rest"] by (cases "fix_overlaps md gap (n' # rest)") auto
  show ?case using p le ih hs f by simp
qed simp_all

lemma no_overlap_nth:
  "no_overlap xs \<Longrightarrow> Suc i < length xs \<Longrightarrow> end_ms (xs ! i) \<le> start_ms (xs ! Suc i)"
proof (induction xs arbitrary: i rule: no_overlap.induct)
  case (1 a b rest)
  then show ?case by (cases i) auto
qed simp_all

lemma no_overlap_Cons:
  "no_overlap (a # ys) = ((ys = [] \<or> end_ms a \<le> start_ms (hd ys)) \<and> no_overlap ys)"
  by (cases ys) auto

lemma tr_loop_no_overlap:
  "no_overlap (tr_loop pd d tw md ge cur xs)"
proof (induction xs arbitrary: cur)
  case Nil then show ?case by simp
next
  case (Cons x xs)
  obtain seg w where x: "x = (seg, w)" by (cases x)
  define e where "e = (if xs = [] then ge
         else let proportional_duration = pd d w tw;
                  actual_duration = max proportional_duration md;
                  e = cur + actual_duration
              in if e > ge then ge else e)"
  have eq: "tr_loop pd d tw md ge cur (x # xs) =
      seg\<lparr>start_ms := cur, end_ms := e\<rparr> # tr_loop pd d tw md ge e xs"
    unfolding x e_def by (simp add: Let_def)
  have "xs \<noteq> [] \<Longrightarrow> start_ms (hd (tr_loop pd d tw md ge e xs)) = e"
    by (rule tr_loop_hd_start)
  moreover have "tr_loop pd d tw md ge e xs = [] \<longleftrightarrow> xs = []"
    using tr_loop_length [of pd d tw md ge e xs] by (metis length_0_conv)
  ultimately show ?case
    unfolding eq no_overlap_Cons using Cons.IH [of e] by auto
qed

lemma set_last_end_no_overlap:
  "no_overlap xs \<Longrightarrow> no_overlap (set_last_end e xs)"
proof (induction xs rule: no_overlap.induct)
  case (1 a b rest)
  then show ?case by (cases rest) (auto simp: set_last_end_def)
qed (simp_all add: set_last_end_def)

lemma redistribute_nondegenerate:
  assumes "2 \<le> length grp" "0 < sum_list (map word_count grp)"
    "0 < end_ms (last grp) - start_ms (hd grp)"
  shows "\<exists>c g. (0 \<le> gap_ms \<longrightarrow> 0 \<le> g) \<and> redistribute_timing_in_group pd grp min_duration_ms gap_ms =
     fix_overlaps min_duration_ms g (set_last_end (end_ms (last grp))
        (rt_loop pd c (sum_list (map word_count grp)) min_duration_ms g (end_ms (last grp))
           (start_ms (hd grp)) (zip grp (map word_count grp))))"
proof -
  have a: "(length grp \<le> 1) = False" using assms(1) by simp
  have "\<And>n::nat. 0 < n \<Longrightarrow> (n = 0) = False" by simp
  from this [OF assms(2)] have b: "(sum_list (map word_count grp) = 0) = False" .
  have c: "(end_ms (last grp) - start_ms (hd grp) \<le> 0) = False" using assms(3) by simp
  show ?thesis
  proof (cases "end_ms (last grp) - start_ms (hd grp) - (int (length grp) - 1) * gap_ms \<le> 0")
    case True
    have "redistribute_timing_in_group pd grp min_duration_ms gap_ms =
      fix_overlaps min_duration_ms (max 10 ((end_ms (last grp) - start_ms (hd grp)) div (int (length grp) * 4)))
       (set_last_end (end_ms (last grp))
        (rt_loop pd (end_ms (last grp) - start_ms (hd grp) - (int (length grp) - 1) *
              max 10 ((end_ms (last grp) - start_ms (hd grp)) div (int (length grp) * 4)))
           (sum_list (map word_count grp)) min_duration_ms
           (max 10 ((end_ms (last grp) - start_ms (hd grp)) div (int (length grp) * 4)))
           (end_ms (last grp)) (start_ms (hd grp)) (zip grp (map word_count grp))))"
      by (simp only: redistribute_timing_in_group_def Let_def a b c True if_False if_True)
    moreover have "(0::int) \<le> max 10 ((end_ms (last grp) - start_ms (hd grp)) div (int (length grp) * 4))"
      by simp
    ultimately show ?thesis by blast
  next
    case False
    then have f: "(end_ms (last grp) - start_ms (hd grp) - (int (length grp) - 1) * gap_ms \<le> 0) = False"
      by simp
    have "redistribute_timing_in_group pd grp min_duration_ms gap_ms =
      fix_overlaps min_duration_ms gap_ms
       (set_last_end (end_ms (last grp))
        (rt_loop pd (end_ms (last grp) - start_ms (hd grp) - (int (length grp) - 1) * gap_ms)
           (sum_list (map word_count grp)) min_duration_ms gap_ms
           (end_ms (last grp)) (start_ms (hd grp)) (zip grp (map word_count grp))))"
      by (simp only: redistribute_timing_in_group_def Let_def a b c f if_False)
    then show ?thesis by blast
  qed
qed

lemma tr_redistribute_nondegenerate:
  assumes "2 \<le> length grp" "0 < sum_list (map word_count grp)"
    "0 < end_ms (last grp) - start_ms (hd grp)"
  shows "tr_redistribute_timing_in_group pd grp min_duration_ms =
     set_last_end (end_ms (last grp))
        (tr_loop pd (end_ms (last grp) - start_ms (hd grp)) (sum_list (map word_count grp))
           min_duration_ms (end_ms (last grp)) (start_ms (hd grp)) (zip grp (map word_count grp)))"
proof -
  have a: "(length grp \<le> 1) = False" using assms(1) by simp
  have "\<And>n::nat. 0 < n \<Longrightarrow> (n = 0) = False" by simp
  from this [OF assms(2)] have b: "(sum_list (map word_count grp) = 0) = False" .
  have c: "(end_ms (last grp) - start_ms (hd grp) \<le> 0) = False" using assms(3) by simp
  show ?thesis
    by (simp only: tr_redistribute_timing_in_group_def Let_def a b c if_False)
qed

text \<open>
  C7. On a group of at most one segment, on a group without words and on a group whose
  last end is not after its first start, both redistributors return the list they were
  given.
\<close>

theorem degenerate_group_unchanged:
  assumes "length grp \<le> 1 \<or> sum_list (map word_count grp) = 0
           \<or> end_ms (last grp) - start_ms (hd grp) \<le> 0"
  shows "redistribute_timing_in_group pd grp min_duration_ms gap_ms = grp
         \<and> tr_redistribute_timing_in_group pd grp min_duration_ms = grp"
  using assms
  by (auto simp: redistribute_timing_in_group_def tr_redistribute_timing_in_group_def Let_def)

theorem degenerate_group_unchanged_witness:
  "sum_list (map word_count
      [\<lparr>number = 1, start_ms = 0, end_ms = 1000, text = ''<i></i>''\<rparr>,
       \<lparr>number = 2, start_ms = 500, end_ms = 1500, text = ''<i></i>''\<rparr>]) = 0
   \<and> redistribute_timing_in_group trunc_proportion
      [\<lparr>number = 1, start_ms = 0, end_ms = 1000, text = ''<i></i>''\<rparr>,
       \<lparr>number = 2, start_ms = 500, end_ms = 1500, text = ''<i></i>''\<rparr>] 1200 30 =
      [\<lparr>number = 1, start_ms = 0, end_ms = 1000, text = ''<i></i>''\<rparr>,
       \<lparr>number = 2, start_ms = 500, end_ms = 1500, text = ''<i></i>''\<rparr>]
   \<and> tr_redistribute_timing_in_group trunc_proportion
      [\<lparr>number = 1, start_ms = 0, end_ms = 1000, text = ''<i></i>''\<rparr>,
       \<lparr>number = 2, start_ms = 500, end_ms = 1500, text = ''<i></i>''\<rparr>] 1200 =
      [\<lparr>number = 1, start_ms = 0, end_ms = 1000, text = ''<i></i>''\<rparr>,
       \<lparr>number = 2, start_ms = 500, end_ms = 1500, text = ''<i></i>''\<rparr>]"
proof -
  have h: "sum_list (map word_count
      [\<lparr>number = 1, start_ms = 0, end_ms = 1000, text = ''<i></i>''\<rparr>,
       \<lparr>number = 2, start_ms = 500, end_ms = 1500, text = ''<i></i>''\<rparr>]) = 0"
    by code_simp
  show ?thesis
    using h degenerate_group_unchanged [where pd = trunc_proportion and min_duration_ms = 1200
        and gap_ms = 30 and grp = "[\<lparr>number = 1, start_ms = 0, end_ms = 1000, text = ''<i></i>''\<rparr>,
       \<lparr>number = 2, start_ms = 500, end_ms = 1500, text = ''<i></i>''\<rparr>]"]
    by blast
qed



text \<open>
  C2, as amended. A group of at least two segments with a positive word total and a
  positive span, redistributed with a gap that is not negative, has no overlap between
  adjacent segments: each segment starts no earlier than its predecessor ends.
\<close>

theorem redistributed_no_overlap:
  assumes "2 \<le> length grp" and "0 < sum_list (map word_count grp)"
    and "0 < end_ms (last grp) - start_ms (hd grp)" and "0 \<le> gap_ms"
  shows "(\<forall>i. Suc i < length grp \<longrightarrow>
            end_ms (redistribute_timing_in_group pd grp min_duration_ms gap_ms ! i)
            \<le> start_ms (redistribute_timing_in_group pd grp min_duration_ms gap_ms ! Suc i))
       \<and> (\<forall>i. Suc i < length grp \<longrightarrow>
            end_ms (tr_redistribute_timing_in_group pd grp min_duration_ms ! i)
            \<le> start_ms (tr_redistribute_timing_in_group pd grp min_duration_ms ! Suc i))"
proof -
  obtain c g where g: "0 \<le> g" and m: "redistribute_timing_in_group pd grp min_duration_ms gap_ms =
     fix_overlaps min_duration_ms g (set_last_end (end_ms (last grp))
        (rt_loop pd c (sum_list (map word_count grp)) min_duration_ms g (end_ms (last grp))
           (start_ms (hd grp)) (zip grp (map word_count grp))))"
    using redistribute_nondegenerate [OF assms(1-3), of gap_ms pd min_duration_ms] assms(4) by blast
  note t = tr_redistribute_nondegenerate [OF assms(1-3), of pd min_duration_ms]
  have a: "no_overlap (redistribute_timing_in_group pd grp min_duration_ms gap_ms)"
    unfolding m by (rule fix_overlaps_no_overlap [OF g])
  have b: "no_overlap (tr_redistribute_timing_in_group pd grp min_duration_ms)"
    unfolding t by (rule set_last_end_no_overlap [OF tr_loop_no_overlap])
  have la: "length (redistribute_timing_in_group pd grp min_duration_ms gap_ms) = length grp"
    unfolding m by simp
  have lb: "length (tr_redistribute_timing_in_group pd grp min_duration_ms) = length grp"
    unfolding t by simp
  show ?thesis
    using no_overlap_nth [OF a] no_overlap_nth [OF b] la lb by simp
qed

theorem redistributed_no_overlap_witness:
  "end_ms (redistribute_timing_in_group trunc_proportion
      [\<lparr>number = 1, start_ms = 0, end_ms = 1000, text = ''Hello there''\<rparr>,
       \<lparr>number = 2, start_ms = 1100, end_ms = 4000, text = ''how are <b>you</b> today''\<rparr>] 1200 30 ! 0)
   \<le> start_ms (redistribute_timing_in_group trunc_proportion
      [\<lparr>number = 1, start_ms = 0, end_ms = 1000, text = ''Hello there''\<rparr>,
       \<lparr>number = 2, start_ms = 1100, end_ms = 4000, text = ''how are <b>you</b> today''\<rparr>] 1200 30 ! Suc 0)
   \<and> end_ms (tr_redistribute_timing_in_group trunc_proportion
      [\<lparr>number = 1, start_ms = 0, end_ms = 1000, text = ''Hello there''\<rparr>,
       \<lparr>number = 2, start_ms = 1100, end_ms = 4000, text = ''how are <b>you</b> today''\<rparr>] 1200 ! 0)
   \<le> start_ms (tr_redistribute_timing_in_group trunc_proportion
      [\<lparr>number = 1, start_ms = 0, end_ms = 1000, text = ''Hello there''\<rparr>,
       \<lparr>number = 2, start_ms = 1100, end_ms = 4000, text = ''how are <b>you</b> today''\<rparr>] 1200 ! Suc 0)"
proof -
  have h: "0 < sum_list (map word_count
      [\<lparr>number = 1, start_ms = 0, end_ms = 1000, text = ''Hello there''\<rparr>,
       \<lparr>number = 2, start_ms = 1100, end_ms = 4000, text = ''how are <b>you</b> today''\<rparr>])"
    by code_simp
  show ?thesis
    using redistributed_no_overlap [where pd = trunc_proportion and min_duration_ms = 1200
        and gap_ms = 30 and grp = "[\<lparr>number = 1, start_ms = 0, end_ms = 1000, text = ''Hello there''\<rparr>,
       \<lparr>number = 2, start_ms = 1100, end_ms = 4000, text = ''how are <b>you</b> today''\<rparr>]", OF _ h]
    by simp
qed

text \<open>
  Without the two conditions the statement fails: two overlapping segments that hold
  markup only have no words, are returned as they are, and still overlap.
\<close>

theorem degenerate_group_overlap_counterexample:
  "start_ms (redistribute_timing_in_group trunc_proportion
      [\<lparr>number = 1, start_ms = 0, end_ms = 1000, text = ''<i></i>''\<rparr>,
       \<lparr>number = 2, start_ms = 500, end_ms = 1500, text = ''<i></i>''\<rparr>] 1200 30 ! Suc 0)
   < end_ms (redistribute_timing_in_group trunc_proportion
      [\<lparr>number = 1, start_ms = 0, end_ms = 1000, text = ''<i></i>''\<rparr>,
       \<lparr>number = 2, start_ms = 500, end_ms = 1500, text = ''<i></i>''\<rparr>] 1200 30 ! 0)
   \<and> start_ms (tr_redistribute_timing_in_group trunc_proportion
      [\<lparr>number = 1, start_ms = 0, end_ms = 1000, text = ''<i></i>''\<rparr>,
       \<lparr>number = 2, start_ms = 500, end_ms = 1500, text = ''<i></i>''\<rparr>] 1200 ! Suc 0)
   < end_ms (tr_redistribute_timing_in_group trunc_proportion
      [\<lparr>number = 1, start_ms = 0, end_ms = 1000, text = ''<i></i>''\<rparr>,
       \<lparr>number = 2, start_ms = 500, end_ms = 1500, text = ''<i></i>''\<rparr>] 1200 ! 0)"
  by code_simp

section \<open>Properties of the grouper\<close>

lemma group_loop_concat:
  "concat (group_loop mg prev rest cur groups) = concat groups @ cur @ rest"
  by (induction rest arbitrary: prev cur groups) (auto simp: Let_def)

lemma group_loop_nonempty:
  "cur \<noteq> [] \<Longrightarrow> [] \<notin> set groups \<Longrightarrow> [] \<notin> set (group_loop mg prev rest cur groups)"
proof (induction rest arbitrary: prev cur groups)
  case Nil then show ?case by simp
next
  case (Cons s rest)
  show ?case
  proof (cases "start_ms s - end_ms prev \<le> mg")
    case True
    then show ?thesis using Cons.IH [of "cur @ [s]" groups s] Cons.prems by (simp add: Let_def)
  next
    case False
    then show ?thesis using Cons.IH [of "[s]" "groups @ [cur]" s] Cons.prems by (simp add: Let_def)
  qed
qed

lemma continuous_snoc:
  "continuous mg cur \<Longrightarrow> cur \<noteq> [] \<Longrightarrow> start_ms s - end_ms (last cur) \<le> mg \<Longrightarrow> continuous mg (cur @ [s])"
  by (induction mg cur rule: continuous.induct) auto

lemma group_loop_continuous:
  "cur \<noteq> [] \<Longrightarrow> last cur = prev \<Longrightarrow> continuous mg cur \<Longrightarrow> \<forall>g \<in> set groups. continuous mg g
   \<Longrightarrow> \<forall>g \<in> set (group_loop mg prev rest cur groups). continuous mg g"
proof (induction rest arbitrary: prev cur groups)
  case Nil then show ?case by auto
next
  case (Cons s rest)
  show ?case
  proof (cases "start_ms s - end_ms prev \<le> mg")
    case True
    have "continuous mg (cur @ [s])" using continuous_snoc Cons.prems True by blast
    then show ?thesis using Cons.IH [of "cur @ [s]" s groups] Cons.prems True by (simp add: Let_def)
  next
    case False
    then show ?thesis using Cons.IH [of "[s]" s "groups @ [cur]"] Cons.prems by (simp add: Let_def)
  qed
qed

lemma separated_snoc:
  "separated mg (gs @ [g]) \<Longrightarrow> start_ms (hd h) - end_ms (last g) > mg \<Longrightarrow> separated mg (gs @ [g, h])"
  by (induction mg gs rule: separated.induct) auto

lemma separated_change_last:
  "separated mg (gs @ [g]) \<Longrightarrow> g \<noteq> [] \<Longrightarrow> separated mg (gs @ [g @ [s]])"
  by (induction mg gs rule: separated.induct) auto

lemma group_loop_separated:
  "cur \<noteq> [] \<Longrightarrow> last cur = prev \<Longrightarrow> separated mg (groups @ [cur])
   \<Longrightarrow> separated mg (group_loop mg prev rest cur groups)"
proof (induction rest arbitrary: prev cur groups)
  case Nil then show ?case by auto
next
  case (Cons s rest)
  show ?case
  proof (cases "start_ms s - end_ms prev \<le> mg")
    case True
    have "separated mg (groups @ [cur @ [s]])" using separated_change_last Cons.prems by blast
    then show ?thesis using Cons.IH [of "cur @ [s]" s groups] Cons.prems True by (simp add: Let_def)
  next
    case False
    have "separated mg (groups @ [cur, [s]])" using separated_snoc [of mg groups cur "[s]"] Cons.prems False by simp
    then show ?thesis using Cons.IH [of "[s]" s "groups @ [cur]"] Cons.prems False by (simp add: Let_def)
  qed
qed

lemma continuous_nth:
  "continuous mg xs \<Longrightarrow> Suc i < length xs \<Longrightarrow> start_ms (xs ! Suc i) - end_ms (xs ! i) \<le> mg"
proof (induction mg xs arbitrary: i rule: continuous.induct)
  case (1 mg a b rest)
  then show ?case by (cases i) auto
qed simp_all

lemma separated_nth:
  "separated mg gs \<Longrightarrow> Suc k < length gs \<Longrightarrow> start_ms (hd (gs ! Suc k)) - end_ms (last (gs ! k)) > mg"
proof (induction mg gs arbitrary: k rule: separated.induct)
  case (1 mg g h rest)
  then show ?case by (cases k) auto
qed simp_all

lemma group_continuous_subtitles_facts:
  "concat (group_continuous_subtitles segments max_gap_ms) = segments"
  "[] \<notin> set (group_continuous_subtitles segments max_gap_ms)"
  "g \<in> set (group_continuous_subtitles segments max_gap_ms) \<Longrightarrow> continuous max_gap_ms g"
  "separated max_gap_ms (group_continuous_subtitles segments max_gap_ms)"
proof -
  show "concat (group_continuous_subtitles segments max_gap_ms) = segments"
    by (cases segments) (simp_all add: group_continuous_subtitles_def group_loop_concat)
  show "[] \<notin> set (group_continuous_subtitles segments max_gap_ms)"
    using group_loop_nonempty [of "[hd segments]" "[]" max_gap_ms "hd segments" "tl segments"]
    by (cases segments) (simp_all add: group_continuous_subtitles_def)
  show "g \<in> set (group_continuous_subtitles segments max_gap_ms) \<Longrightarrow> continuous max_gap_ms g"
    using group_loop_continuous [of "[hd segments]" "hd segments" max_gap_ms "[]" "tl segments"]
    by (cases segments) (simp_all add: group_continuous_subtitles_def)
  show "separated max_gap_ms (group_continuous_subtitles segments max_gap_ms)"
    using group_loop_separated [of "[hd segments]" "hd segments" max_gap_ms "[]" "tl segments"]
    by (cases segments) (simp_all add: group_continuous_subtitles_def)
qed

text \<open>
  C8. The threshold is inclusive. Two segments with a gap of at most \<open>max_gap_ms\<close>
  form one group and with a larger gap two groups; in general the groups are the
  maximal runs: they concatenate to the input, none is empty, every gap inside a group
  is at most \<open>max_gap_ms\<close>, and the gap between the last segment of a group and the
  first segment of the next group exceeds \<open>max_gap_ms\<close>.
\<close>

theorem grouping_threshold_inclusive:
  "group_continuous_subtitles [a, b] max_gap_ms =
     (if start_ms b - end_ms a \<le> max_gap_ms then [[a, b]] else [[a], [b]])
   \<and> concat (group_continuous_subtitles segments max_gap_ms) = segments
   \<and> [] \<notin> set (group_continuous_subtitles segments max_gap_ms)
   \<and> (\<forall>g \<in> set (group_continuous_subtitles segments max_gap_ms).
         \<forall>i. Suc i < length g \<longrightarrow> start_ms (g ! Suc i) - end_ms (g ! i) \<le> max_gap_ms)
   \<and> (\<forall>k. Suc k < length (group_continuous_subtitles segments max_gap_ms) \<longrightarrow>
         max_gap_ms < start_ms (hd (group_continuous_subtitles segments max_gap_ms ! Suc k))
                      - end_ms (last (group_continuous_subtitles segments max_gap_ms ! k)))"
proof -
  have 1: "group_continuous_subtitles [a, b] max_gap_ms =
     (if start_ms b - end_ms a \<le> max_gap_ms then [[a, b]] else [[a], [b]])"
    by (simp add: group_continuous_subtitles_def Let_def)
  have 4: "\<forall>g \<in> set (group_continuous_subtitles segments max_gap_ms).
         \<forall>i. Suc i < length g \<longrightarrow> start_ms (g ! Suc i) - end_ms (g ! i) \<le> max_gap_ms"
    using group_continuous_subtitles_facts(3) continuous_nth by blast
  have 5: "\<forall>k. Suc k < length (group_continuous_subtitles segments max_gap_ms) \<longrightarrow>
         max_gap_ms < start_ms (hd (group_continuous_subtitles segments max_gap_ms ! Suc k))
                      - end_ms (last (group_continuous_subtitles segments max_gap_ms ! k))"
    using group_continuous_subtitles_facts(4) separated_nth by blast
  show ?thesis
    using 1 4 5 group_continuous_subtitles_facts(1,2) by blast
qed

theorem grouping_threshold_inclusive_witness:
  "group_continuous_subtitles
     [\<lparr>number = 1, start_ms = 0, end_ms = 1000, text = ''one two''\<rparr>,
      \<lparr>number = 2, start_ms = 1500, end_ms = 2000, text = ''three''\<rparr>,
      \<lparr>number = 3, start_ms = 2501, end_ms = 3000, text = ''four''\<rparr>] 500 =
     [[\<lparr>number = 1, start_ms = 0, end_ms = 1000, text = ''one two''\<rparr>,
       \<lparr>number = 2, start_ms = 1500, end_ms = 2000, text = ''three''\<rparr>],
      [\<lparr>number = 3, start_ms = 2501, end_ms = 3000, text = ''four''\<rparr>]]
   \<and> start_ms ([\<lparr>number = 1, start_ms = 0, end_ms = 1000, text = ''one two''\<rparr>,
      \<lparr>number = 2, start_ms = 1500, end_ms = 2000, text = ''three''\<rparr>,
      \<lparr>number = 3, start_ms = 2501, end_ms = 3000, text = ''four''\<rparr>] ! Suc 0) - end_ms ([\<lparr>number = 1, start_ms = 0, end_ms = 1000, text = ''one two''\<rparr>,
      \<lparr>number = 2, start_ms = 1500, end_ms = 2000, text = ''three''\<rparr>,
      \<lparr>number = 3, start_ms = 2501, end_ms = 3000, text = ''four''\<rparr>] ! 0) \<le> 500
   \<and> 500 < start_ms (hd ([[\<lparr>number = 1, start_ms = 0, end_ms = 1000, text = ''one two''\<rparr>,
       \<lparr>number = 2, start_ms = 1500, end_ms = 2000, text = ''three''\<rparr>],
      [\<lparr>number = 3, start_ms = 2501, end_ms = 3000, text = ''four''\<rparr>]] ! Suc 0)) - end_ms (last ([[\<lparr>number = 1, start_ms = 0, end_ms = 1000, text = ''one two''\<rparr>,
       \<lparr>number = 2, start_ms = 1500, end_ms = 2000, text = ''three''\<rparr>],
      [\<lparr>number = 3, start_ms = 2501, end_ms = 3000, text = ''four''\<rparr>]] ! 0))"
proof -
  have e: "group_continuous_subtitles
     [\<lparr>number = 1, start_ms = 0, end_ms = 1000, text = ''one two''\<rparr>,
      \<lparr>number = 2, start_ms = 1500, end_ms = 2000, text = ''three''\<rparr>,
      \<lparr>number = 3, start_ms = 2501, end_ms = 3000, text = ''four''\<rparr>] 500 =
     [[\<lparr>number = 1, start_ms = 0, end_ms = 1000, text = ''one two''\<rparr>,
       \<lparr>number = 2, start_ms = 1500, end_ms = 2000, text = ''three''\<rparr>],
      [\<lparr>number = 3, start_ms = 2501, end_ms = 3000, text = ''four''\<rparr>]]"
    by (simp add: group_continuous_subtitles_def Let_def)
  show ?thesis
    using grouping_threshold_inclusive [where max_gap_ms = 500 and segments = "[\<lparr>number = 1, start_ms = 0, end_ms = 1000, text = ''one two''\<rparr>,
      \<lparr>number = 2, start_ms = 1500, end_ms = 2000, text = ''three''\<rparr>,
      \<lparr>number = 3, start_ms = 2501, end_ms = 3000, text = ''four''\<rparr>]"]
    unfolding e by simp
qed

text \<open>
  C10. The groups are a partition of the input in order: their concatenation is the
  input list, no group is empty, and the empty input gives no group.
\<close>

theorem grouping_is_partition:
  "concat (group_continuous_subtitles segments max_gap_ms) = segments
   \<and> [] \<notin> set (group_continuous_subtitles segments max_gap_ms)
   \<and> group_continuous_subtitles [] max_gap_ms = []"
  using group_continuous_subtitles_facts(1,2) by (simp add: group_continuous_subtitles_def)

section \<open>Properties of the timestamp codec\<close>

lemma timestamp_fields_error: "timestamp_fields s = Inl e \<Longrightarrow> e = ValueError"
  by (auto simp: timestamp_fields_def split: list.splits option.splits)

lemma split_on_nonempty [simp]: "split_on sep s \<noteq> []"
  by (induction s) (auto split: list.splits)

lemma split_on_no_sep: "sep \<notin> set s \<Longrightarrow> split_on sep s = [s]"
  by (induction s) auto

lemma split_on_append:
  "sep \<notin> set a \<Longrightarrow> split_on sep (a @ sep # b) = a # split_on sep b"
  by (induction a) auto

lemma strip_id:
  "s \<noteq> [] \<Longrightarrow> \<not> is_space (hd s) \<Longrightarrow> \<not> is_space (last s) \<Longrightarrow> strip s = s"
proof -
  assume a: "s \<noteq> []" "\<not> is_space (hd s)" "\<not> is_space (last s)"
  have 1: "dropWhile is_space s = s" using a by (cases s) auto
  have "rev s \<noteq> []" "\<not> is_space (hd (rev s))" using a by (auto simp: hd_rev)
  then have 2: "dropWhile is_space (rev s) = rev s" by (cases "rev s") auto
  show ?thesis by (simp add: strip_def 1 2)
qed

lemma digit_not_space: "is_digit c \<Longrightarrow> \<not> is_space c"
  by (auto simp: is_digit_def is_space_def)

lemma digit_not_special:
  "is_digit c \<Longrightarrow> c \<noteq> CHR '','' \<and> c \<noteq> CHR '':'' \<and> c \<noteq> CHR ''-'' \<and> c \<noteq> CHR ''+'' \<and> c \<noteq> CHR ''_''"
  by (auto simp: is_digit_def)

lemma parse_digits_all:
  "list_all is_digit ds \<Longrightarrow> (ds \<noteq> [] \<or> prev) \<Longrightarrow>
   parse_digits prev acc ds = Some (foldl (\<lambda>acc c. acc * 10 + digit_val c) acc ds)"
  by (induction ds arbitrary: prev acc) auto

lemma py_int_digits:
  assumes "ds \<noteq> []" "list_all is_digit ds"
  shows "py_int ds = Some (int (decimal ds))"
proof -
  obtain c cs where ds: "ds = c # cs" using assms(1) by (cases ds) auto
  have hd: "is_digit (hd ds)" and la: "is_digit (last ds)"
    using assms by (auto simp: list_all_iff ds)
  have s: "strip ds = ds"
    using strip_id [OF assms(1)] hd la digit_not_space by blast
  have c: "c \<noteq> CHR ''-''" "c \<noteq> CHR ''+''" using hd digit_not_special ds by auto
  show ?thesis
    using parse_digits_all [OF assms(2), of False 0] assms(1) c
    by (simp add: py_int_def s ds [symmetric] decimal_def) (simp add: ds)
qed

lemma timestamp_fields_digits:
  assumes "digit_field hh" "digit_field mm" "digit_field ss" "digit_field ms"
  shows "timestamp_fields (hh @ '':'' @ mm @ '':'' @ ss @ '','' @ ms) =
     Inr (int (decimal hh), int (decimal mm), int (decimal ss), int (decimal ms))"
proof -
  have d: "\<And>ds c. digit_field ds \<Longrightarrow> c \<in> set ds \<Longrightarrow> is_digit c"
    by (auto simp: digit_field_def list_all_iff)
  have nc: "CHR '','' \<notin> set (hh @ '':'' @ mm @ '':'' @ ss)"
    using d assms digit_not_special by auto
  have ncm: "CHR '','' \<notin> set ms" using d assms digit_not_special by auto
  have 1: "split_on CHR '','' (hh @ '':'' @ mm @ '':'' @ ss @ '','' @ ms) =
      [hh @ '':'' @ mm @ '':'' @ ss, ms]"
    using split_on_append [OF nc, of ms] split_on_no_sep [OF ncm] by simp
  have nh: "CHR '':'' \<notin> set hh" "CHR '':'' \<notin> set mm" "CHR '':'' \<notin> set ss"
    using d assms digit_not_special by auto
  have 2: "split_on CHR '':'' (hh @ '':'' @ mm @ '':'' @ ss) = [hh, mm, ss]"
    using split_on_append [OF nh(1), of "mm @ '':'' @ ss"] split_on_append [OF nh(2), of ss]
      split_on_no_sep [OF nh(3)] by simp
  have 3: "py_int hh = Some (int (decimal hh))" "py_int mm = Some (int (decimal mm))"
    "py_int ss = Some (int (decimal ss))" "py_int ms = Some (int (decimal ms))"
    using assms py_int_digits by (auto simp: digit_field_def)
  show ?thesis using 1 2 3 by (simp add: timestamp_fields_def)
qed


lemma catch_parse_errors_total:
  "(\<And>e. r = Inl e \<Longrightarrow> e = ValueError) \<Longrightarrow> \<exists>v. catch_parse_errors r = Inr v"
  by (cases r) (auto simp: catch_parse_errors_def)

lemma parse_body_error:
  "tr_parse_timestamp_body s = Inl e \<Longrightarrow> e = ValueError"
  "parse_timestamp_body s = Inl e \<Longrightarrow> e = ValueError"
  using timestamp_fields_error [of s]
  by (auto simp: tr_parse_timestamp_body_def parse_timestamp_body_def split: sum.splits prod.splits if_splits)

text \<open>
  C5, as amended. Neither \<open>parse_timestamp\<close> raises: each returns a number for every
  string, and 0 whenever the parse fails. For a string of four digit fields
  \<open>HH:MM:SS,mmm\<close> the version of timing\_redistributor.py returns
  \<open>(hours * 3600 + minutes * 60 + seconds) * 1000 + milliseconds\<close> whatever the
  fields are; the version of main.py returns that number only when minutes and
  seconds are at most 59 and milliseconds at most 999, and 0 otherwise.
\<close>

theorem parse_timestamp_soft:
  "(\<exists>v. tr_parse_timestamp s = Inr v) \<and> (\<exists>v. parse_timestamp s = Inr v)
   \<and> (tr_parse_timestamp_body s = Inl e \<longrightarrow> tr_parse_timestamp s = Inr 0)
   \<and> (parse_timestamp_body s = Inl e \<longrightarrow> parse_timestamp s = Inr 0)
   \<and> (digit_field hh \<and> digit_field mm \<and> digit_field ss \<and> digit_field ms \<longrightarrow>
        tr_parse_timestamp (hh @ '':'' @ mm @ '':'' @ ss @ '','' @ ms) =
          Inr (total_ms (int (decimal hh)) (int (decimal mm)) (int (decimal ss))
                 (int (decimal ms)))
        \<and> parse_timestamp (hh @ '':'' @ mm @ '':'' @ ss @ '','' @ ms) =
          Inr (if 59 < decimal mm \<or> 59 < decimal ss \<or> 999 < decimal ms then 0
               else total_ms (int (decimal hh)) (int (decimal mm)) (int (decimal ss))
                      (int (decimal ms))))"
proof -
  have 1: "\<exists>v. tr_parse_timestamp s = Inr v"
    unfolding tr_parse_timestamp_def
    by (rule catch_parse_errors_total) (rule parse_body_error(1))
  have 2: "\<exists>v. parse_timestamp s = Inr v"
    unfolding parse_timestamp_def
    by (rule catch_parse_errors_total) (rule parse_body_error(2))
  have 3: "tr_parse_timestamp_body s = Inl e \<longrightarrow> tr_parse_timestamp s = Inr 0"
    using parse_body_error(1) [of s e]
    by (auto simp: tr_parse_timestamp_def catch_parse_errors_def)
  have 4: "parse_timestamp_body s = Inl e \<longrightarrow> parse_timestamp s = Inr 0"
    using parse_body_error(2) [of s e]
    by (auto simp: parse_timestamp_def catch_parse_errors_def)
  have nn: "0 \<le> total_ms (int a) (int b) (int c) (int d)" for a b c d
    by (simp add: total_ms_def)
  have 5: "tr_parse_timestamp (hh @ '':'' @ mm @ '':'' @ ss @ '','' @ ms) =
          Inr (total_ms (int (decimal hh)) (int (decimal mm)) (int (decimal ss))
                 (int (decimal ms)))"
    if "digit_field hh" "digit_field mm" "digit_field ss" "digit_field ms"
    using timestamp_fields_digits [OF that] nn [of "decimal hh" "decimal mm" "decimal ss" "decimal ms"]
    by (simp add: tr_parse_timestamp_def tr_parse_timestamp_body_def catch_parse_errors_def
        max_def)
  have 6: "parse_timestamp (hh @ '':'' @ mm @ '':'' @ ss @ '','' @ ms) =
          Inr (if 59 < decimal mm \<or> 59 < decimal ss \<or> 999 < decimal ms then 0
               else total_ms (int (decimal hh)) (int (decimal mm)) (int (decimal ss))
                      (int (decimal ms)))"
    if "digit_field hh" "digit_field mm" "digit_field ss" "digit_field ms"
    using timestamp_fields_digits [OF that] nn [of "decimal hh" "decimal mm" "decimal ss" "decimal ms"]
    by (simp add: parse_timestamp_def parse_timestamp_body_def catch_parse_errors_def
        max_def)
  show ?thesis using 1 2 3 4 5 6 by blast
qed

theorem parse_timestamp_soft_witness:
  "tr_parse_timestamp ''1:2,x'' = Inr 0 \<and> parse_timestamp ''1:2,x'' = Inr 0
   \<and> tr_parse_timestamp ''00:61:00,000'' = Inr 3660000
   \<and> parse_timestamp ''00:61:00,000'' = Inr 0"
proof -
  have b: "tr_parse_timestamp_body ''1:2,x'' = Inl ValueError"
    "parse_timestamp_body ''1:2,x'' = Inl ValueError"
    by code_simp+
  have d: "digit_field ''00''" "digit_field ''61''" "digit_field ''000''"
    by code_simp+
  have v: "decimal ''00'' = 0" "decimal ''61'' = 61" "decimal ''000'' = 0"
    by code_simp+
  show ?thesis
    using parse_timestamp_soft [of "''1:2,x''" ValueError "''00''" "''61''" "''00''" "''000''"]
      b d
    by (simp add: v total_ms_def)
qed

text \<open>
  The range check of main.py answers 0 where the arithmetic would give 3660000.
\<close>

theorem parse_timestamp_range_counterexample:
  "parse_timestamp ''00:61:00,000'' \<noteq> Inr ((0 * 3600 + 61 * 60 + 0) * 1000 + 0)"
  by code_simp

section \<open>Properties of the validation\<close>

lemma dict_lookup_keys: "(dict_lookup d k = None) = (k \<notin> dict_keys d)"
  by (cases d) (auto simp: map_of_eq_None_iff)

text \<open>
  C6. For original keys that are segment numbers (none is \<open>success\<close> or \<open>comment\<close>),
  the validation fails exactly when the response is not a dictionary, or its
  \<open>success\<close> entry is falsy, or an original key is absent from it, or an original key
  maps to a value that is not a string. When the response is a dictionary marked
  successful and keys are missing, the message carries exactly the missing keys; when
  nothing fails the result is the passing one.
\<close>

theorem validate_translation_structure_iff:
  assumes "''success'' \<notin> set original_keys" and "''comment'' \<notin> set original_keys"
  shows "(fst (validate_translation_structure original_keys translated_data) = False) =
           (\<not> is_dict translated_data
            \<or> \<not> truthy (dict_get translated_data ''success'')
            \<or> (\<exists>k \<in> set original_keys. k \<notin> dict_keys translated_data)
            \<or> (\<exists>k \<in> set original_keys. \<exists>v. dict_lookup translated_data k = Some v \<and> \<not> is_str v))
       \<and> (is_dict translated_data \<and> truthy (dict_get translated_data ''success'')
            \<and> (\<exists>k \<in> set original_keys. k \<notin> dict_keys translated_data) \<longrightarrow>
            validate_translation_structure original_keys translated_data =
              (False, Missing_Segments {k \<in> set original_keys. k \<notin> dict_keys translated_data}))
       \<and> (fst (validate_translation_structure original_keys translated_data) \<longrightarrow>
            validate_translation_structure original_keys translated_data =
              (True, Validation_Passed))"
proof -
  let ?actual = "{k \<in> dict_keys translated_data. k \<notin> {''success'', ''comment''}}"
  have sub: "(set original_keys \<subseteq> ?actual) = (\<forall>k \<in> set original_keys. k \<in> dict_keys translated_data)"
    using assms by auto
  have diff: "set original_keys - ?actual = {k \<in> set original_keys. k \<notin> dict_keys translated_data}"
    using assms by auto
  have fnd: "(find (\<lambda>num. num \<in> dict_keys translated_data
                 \<and> \<not> is_str (dict_get translated_data num)) original_keys = None) =
      (\<not> (\<exists>k \<in> set original_keys. \<exists>v. dict_lookup translated_data k = Some v \<and> \<not> is_str v))"
  proof -
    have "(k \<in> dict_keys translated_data \<and> \<not> is_str (dict_get translated_data k)) =
          (\<exists>v. dict_lookup translated_data k = Some v \<and> \<not> is_str v)" for k
      using dict_lookup_keys [of translated_data k]
      by (cases "dict_lookup translated_data k") (auto simp: dict_get_def)
    then show ?thesis by (auto simp: find_None_iff)
  qed
  show ?thesis
    unfolding validate_translation_structure_def Let_def sub diff
    using fnd by (auto split: option.splits)
qed

theorem validate_translation_structure_iff_witness:
  "validate_translation_structure [''1'', ''2'']
     (PDict [(''success'', PBool True), (''comment'', PStr ''''), (''1'', PStr ''uno'')])
   = (False, Missing_Segments {''2''})
   \<and> validate_translation_structure [''1'', ''2'']
     (PDict [(''success'', PBool True), (''comment'', PStr ''''), (''1'', PStr ''uno''),
             (''2'', PStr ''dos'')])
   = (True, Validation_Passed)"
proof -
  have k: "''success'' \<notin> set [''1'', ''2'']" "''comment'' \<notin> set [''1'', ''2'']" by simp_all
  have m: "{k \<in> set [''1'', ''2'']. k \<notin> dict_keys
      (PDict [(''success'', PBool True), (''comment'', PStr ''''), (''1'', PStr ''uno'')])} = {''2''}"
    by auto
  show ?thesis
    using validate_translation_structure_iff [OF k,
        of "PDict [(''success'', PBool True), (''comment'', PStr ''''), (''1'', PStr ''uno'')]"]
      validate_translation_structure_iff [OF k,
        of "PDict [(''success'', PBool True), (''comment'', PStr ''''), (''1'', PStr ''uno''),
             (''2'', PStr ''dos'')]"]
    unfolding m by (simp add: dict_get_def)
qed

section \<open>Properties of the splitter's timing\<close>

lemma split_timing_bounds:
  assumes "2 * min_segment_duration < available_duration"
  shows "0 < fst (split_timing pd available_duration fw sw)
       \<and> snd (split_timing pd available_duration fw sw) = fst (split_timing pd available_duration fw sw) + split_gap_ms
       \<and> fst (split_timing pd available_duration fw sw) < available_duration"
  using assms
  by (auto simp: split_timing_def Let_def min_segment_duration_def split_gap_ms_def max_def)


text \<open>
  C3. Once a split point was found, a segment whose duration \<open>end_ms - start_ms\<close> is
  below the safety floor is appended as it is: below \<open>2 * min_segment_duration + gap\<close>
  with the values 200 and 30, and indeed below 500, the floor the code computes as
  \<open>min_segment_duration * 2 + 100\<close>. Two children replace the segment exactly when the
  duration is at least 500.
\<close>

theorem short_segment_kept_intact:
  assumes "split_str '' --> '' (timestamp segment) = [start_time, end_time]"
    and "parse_timestamp start_time = Inr seg_start"
    and "parse_timestamp end_time = Inr seg_end"
  shows "(seg_end - seg_start < 2 * min_segment_duration + split_gap_ms \<longrightarrow>
           emit_split pd segment first_part second_part = Inr [segment])
       \<and> (seg_end - seg_start < 500 \<longrightarrow>
           emit_split pd segment first_part second_part = Inr [segment])
       \<and> ((\<exists>first second. emit_split pd segment first_part second_part = Inr [first, second])
            = (500 \<le> seg_end - seg_start))"
proof -
  let ?fw = "length (split_ws first_part)" and ?sw = "length (split_ws second_part)"
  have short: "emit_split pd segment first_part second_part = Inr [segment]"
    if "seg_end - seg_start < 500"
    using that assms
    by (simp add: emit_split_def required_total_duration_def min_segment_duration_def)
  have long: "\<exists>first second. emit_split pd segment first_part second_part = Inr [first, second]"
    if l: "500 \<le> seg_end - seg_start"
  proof -
    have av: "2 * min_segment_duration < seg_end - seg_start - split_gap_ms"
      using l by (simp add: min_segment_duration_def split_gap_ms_def)
    obtain fo so where st: "split_timing pd (seg_end - seg_start - split_gap_ms) ?fw ?sw = (fo, so)"
      by (cases "split_timing pd (seg_end - seg_start - split_gap_ms) ?fw ?sw")
    have b: "0 < fo" "so = fo + split_gap_ms" "fo < seg_end - seg_start - split_gap_ms"
      using split_timing_bounds [OF av, of pd ?fw ?sw] st by simp_all
    have c: "\<not> seg_end - seg_start < required_total_duration"
      "\<not> seg_end - seg_start - split_gap_ms \<le> min_segment_duration * 2"
      using l av by (simp_all add: required_total_duration_def min_segment_duration_def)
    have d: "\<not> (seg_start + fo \<le> seg_start \<or> seg_start + so \<ge> seg_end)"
      "seg_start + fo \<noteq> seg_start" "seg_start + so \<noteq> seg_end"
      using b by (simp_all add: split_gap_ms_def)
    show ?thesis
      using assms c d st by (simp add: emit_split_def Let_def)
  qed
  have 1: "seg_end - seg_start < 2 * min_segment_duration + split_gap_ms \<longrightarrow>
           emit_split pd segment first_part second_part = Inr [segment]"
    using short by (simp add: min_segment_duration_def split_gap_ms_def)
  have 3: "(\<exists>first second. emit_split pd segment first_part second_part = Inr [first, second])
            = (500 \<le> seg_end - seg_start)"
    using short long by (cases "500 \<le> seg_end - seg_start") auto
  show ?thesis using 1 short 3 by blast
qed

theorem short_segment_kept_intact_witness:
  "emit_split trunc_proportion
     \<lparr>num = Num 1, timestamp = ''00:00:01,000 --> 00:00:01,450'',
        entry_text = ''Hello there. How are you today my friend?''\<rparr>
     ''Hello there.'' ''How are you today my friend?''
   = Inr [\<lparr>num = Num 1, timestamp = ''00:00:01,000 --> 00:00:01,450'',
        entry_text = ''Hello there. How are you today my friend?''\<rparr>]
   \<and> (\<exists>first second. emit_split trunc_proportion
     \<lparr>num = Num 1, timestamp = ''00:00:00,000 --> 00:00:04,000'',
        entry_text = ''Hello there. How are you today my friend?''\<rparr>
     ''Hello there.'' ''How are you today my friend?'' = Inr [first, second])"
proof -
  have s: "split_str '' --> '' ''00:00:01,000 --> 00:00:01,450'' = [''00:00:01,000'', ''00:00:01,450'']"
    "split_str '' --> '' ''00:00:00,000 --> 00:00:04,000'' = [''00:00:00,000'', ''00:00:04,000'']"
    by code_simp+
  have p: "parse_timestamp ''00:00:01,000'' = Inr 1000" "parse_timestamp ''00:00:01,450'' = Inr 1450"
    "parse_timestamp ''00:00:00,000'' = Inr 0" "parse_timestamp ''00:00:04,000'' = Inr 4000"
    by code_simp+
  show ?thesis
    using short_segment_kept_intact [where pd = trunc_proportion
        and first_part = "''Hello there.''" and second_part = "''How are you today my friend?''"
        and segment = "\<lparr>num = Num 1, timestamp = ''00:00:01,000 --> 00:00:01,450'',
        entry_text = ''Hello there. How are you today my friend?''\<rparr>"
        and start_time = "''00:00:01,000''" and end_time = "''00:00:01,450''"
        and seg_start = 1000 and seg_end = 1450]
      short_segment_kept_intact [where pd = trunc_proportion
        and first_part = "''Hello there.''" and second_part = "''How are you today my friend?''"
        and segment = "\<lparr>num = Num 1, timestamp = ''00:00:00,000 --> 00:00:04,000'',
        entry_text = ''Hello there. How are you today my friend?''\<rparr>"
        and start_time = "''00:00:00,000''" and end_time = "''00:00:04,000''"
        and seg_start = 0 and seg_end = 4000]
      s p
    by simp
qed

section \<open>Properties of the text redistribution\<close>


lemma split_ws_acc_words:
  "\<forall>c \<in> set cur. \<not> is_space c \<Longrightarrow> w \<in> set (split_ws_acc cur s) \<Longrightarrow>
   w \<noteq> [] \<and> (\<forall>c \<in> set w. \<not> is_space c)"
proof (induction s arbitrary: cur)
  case Nil
  then show ?case by (cases "cur = []") simp_all
next
  case (Cons c s)
  show ?case
  proof (cases "is_space c")
    case True
    show ?thesis
    proof (cases "cur = []")
      case True
      with \<open>is_space c\<close> Cons.prems(2) have "w \<in> set (split_ws_acc [] s)" by simp
      then show ?thesis using Cons.IH [of "[]"] by simp
    next
      case False
      with \<open>is_space c\<close> Cons.prems(2) have "w = cur \<or> w \<in> set (split_ws_acc [] s)" by simp
      then show ?thesis
      proof
        assume "w = cur" then show ?thesis using False Cons.prems(1) by simp
      next
        assume "w \<in> set (split_ws_acc [] s)"
        then show ?thesis using Cons.IH [of "[]"] by simp
      qed
    qed
  next
    case False
    with Cons.prems(2) have m: "w \<in> set (split_ws_acc (cur @ [c]) s)" by simp
    have "\<forall>d \<in> set (cur @ [c]). \<not> is_space d" using False Cons.prems(1) by simp
    from Cons.IH [OF this m] show ?thesis .
  qed
qed

lemma split_ws_wordlike: "w \<in> set (split_ws s) \<Longrightarrow> wordlike w"
proof -
  assume "w \<in> set (split_ws s)"
  then have w: "w \<noteq> []" "\<forall>c \<in> set w. \<not> is_space c"
    using split_ws_acc_words [of "[]" w s] by (simp_all add: split_ws_def)
  then have "hd w \<in> set w" "last w \<in> set w" by simp_all
  then show ?thesis using w by (simp add: wordlike_def)
qed

lemma py_join_nonempty: "ws \<noteq> [] \<Longrightarrow> hd ws \<noteq> [] \<Longrightarrow> py_join sep ws \<noteq> []"
  by (induction sep ws rule: py_join.induct) auto

lemma py_join_hd: "ws \<noteq> [] \<Longrightarrow> hd ws \<noteq> [] \<Longrightarrow> hd (py_join sep ws) = hd (hd ws)"
  by (induction sep ws rule: py_join.induct) auto

lemma py_join_nonempty_last:
  "ws \<noteq> [] \<Longrightarrow> last ws \<noteq> [] \<Longrightarrow> py_join sep ws \<noteq> []"
  by (induction sep ws rule: py_join.induct) auto

lemma py_join_last:
  "ws \<noteq> [] \<Longrightarrow> last ws \<noteq> [] \<Longrightarrow> last (py_join sep ws) = last (last ws)"
proof (induction sep ws rule: py_join.induct)
  case (3 sep x y ys)
  have ne: "py_join sep (y # ys) \<noteq> []"
    using py_join_nonempty_last [of "y # ys" sep] 3(3) by simp
  have "last (py_join sep (y # ys)) = last (last (y # ys))"
    using 3 by simp
  then show ?case using ne by simp
qed simp_all

lemma py_join_append:
  "a \<noteq> [] \<Longrightarrow> b \<noteq> [] \<Longrightarrow> py_join sep (a @ b) = py_join sep a @ sep @ py_join sep b"
proof (induction sep a rule: py_join.induct)
  case (2 sep x)
  then show ?case by (cases b) auto
qed auto

lemma strip_join_words:
  assumes "ws \<noteq> []" "\<forall>w \<in> set ws. wordlike w"
  shows "strip (py_join '' '' ws) = py_join '' '' ws" "py_join '' '' ws \<noteq> []"
proof -
  have h: "wordlike (hd ws)" and l: "wordlike (last ws)" using assms by auto
  show ne: "py_join '' '' ws \<noteq> []"
    using py_join_nonempty [OF assms(1)] h by (simp add: wordlike_def)
  have 1: "hd (py_join '' '' ws) = hd (hd ws)"
    using py_join_hd [OF assms(1)] h by (simp add: wordlike_def)
  have 2: "last (py_join '' '' ws) = last (last ws)"
    using py_join_last [OF assms(1)] l by (simp add: wordlike_def)
  show "strip (py_join '' '' ws) = py_join '' '' ws"
    using strip_id [OF ne] 1 2 h l by (simp add: wordlike_def)
qed

lemma rot_loop_step:
  assumes w: "\<forall>w \<in> set ws. wordlike w"
    and lt: "wi < we (i + 1) (length ws) n" and le: "we (i + 1) (length ws) n \<le> length ws"
  shows "rot_loop we n ws i wi ((num0, ts) # rest) =
     (case rot_loop we n ws (i + 1) (we (i + 1) (length ws) n) rest of
        (later, final_index) \<Rightarrow>
          (\<lparr>num = Num num0, timestamp = ts,
            entry_text = py_join '' '' (take (we (i + 1) (length ws) n - wi) (drop wi ws))\<rparr>
           # later, final_index))"
proof -
  let ?e = "we (i + 1) (length ws) n"
  let ?sw = "take (?e - wi) (drop wi ws)"
  have ne: "?sw \<noteq> []" using lt le by simp
  have wl: "\<forall>w \<in> set ?sw. wordlike w"
    using w by (meson in_set_dropD in_set_takeD)
  note sj = strip_join_words [OF ne wl]
  have ng: "\<not> ?e > length ws" using le by simp
  show ?thesis
    using ne ng sj by (simp add: Let_def split: prod.splits)
qed

lemma rot_loop_assigned:
  assumes w: "\<forall>w \<in> set ws. wordlike w"
  shows "segs \<noteq> [] \<longrightarrow> wi < we (i + 1) (length ws) n \<Longrightarrow>
     \<forall>j. i \<le> j \<and> j < i + length segs \<longrightarrow> we (j + 1) (length ws) n \<le> length ws \<Longrightarrow>
     \<forall>j. i < j \<and> j < i + length segs \<longrightarrow> we j (length ws) n < we (j + 1) (length ws) n \<Longrightarrow>
     rot_loop we n ws i wi segs =
       (assigned we n ws i wi segs,
        if segs = [] then wi else we (i + length segs) (length ws) n)"
proof (induction segs arbitrary: i wi)
  case Nil then show ?case by simp
next
  case (Cons s segs)
  obtain num0 ts where s: "s = (num0, ts)" by (cases s)
  have lt: "wi < we (i + 1) (length ws) n" using Cons.prems(1) by simp
  have le: "we (i + 1) (length ws) n \<le> length ws" using Cons.prems(2) by simp
  have a: "segs \<noteq> [] \<longrightarrow> we (i + 1) (length ws) n < we (i + 1 + 1) (length ws) n"
    using Cons.prems(3) by (cases segs) auto
  have b: "\<forall>j. i + 1 \<le> j \<and> j < i + 1 + length segs \<longrightarrow> we (j + 1) (length ws) n \<le> length ws"
    using Cons.prems(2) by simp
  have c: "\<forall>j. i + 1 < j \<and> j < i + 1 + length segs \<longrightarrow> we j (length ws) n < we (j + 1) (length ws) n"
    using Cons.prems(3) by simp
  note ih = Cons.IH [OF a b c]
  show ?case
    unfolding s rot_loop_step [where we = we and ws = ws and i = i and wi = wi and n = n, OF w lt le] ih
    by (cases segs) simp_all
qed

lemma assigned_length [simp]: "length (assigned we n ws i wi segs) = length segs"
  by (induction segs arbitrary: i wi) auto

lemma assigned_nth:
  "k < length segs \<Longrightarrow>
   assigned we n ws i wi segs ! k =
     \<lparr>num = Num (fst (segs ! k)), timestamp = snd (segs ! k),
      entry_text = py_join '' ''
        (take (we (i + k + 1) (length ws) n - (if k = 0 then wi else we (i + k) (length ws) n))
           (drop (if k = 0 then wi else we (i + k) (length ws) n) ws))\<rparr>"
proof (induction segs arbitrary: i wi k)
  case Nil then show ?case by simp
next
  case (Cons s segs)
  obtain num0 ts where s: "s = (num0, ts)" by (cases s)
  show ?case
  proof (cases k)
    case 0 then show ?thesis by (simp add: s)
  next
    case (Suc k')
    then have "k' < length segs" using Cons.prems by simp
    from Cons.IH [OF this, of "i + 1" "we (i + 1) (length ws) n"]
    show ?thesis using Suc by (cases k') (simp_all add: s)
  qed
qed


lemma take_drop_rest:
  "s \<le> e \<Longrightarrow> take (e - s) (drop s ws) @ drop e ws = drop s (ws :: 'a list)"
proof -
  assume "s \<le> e"
  then have "drop e ws = drop (e - s) (drop s ws)" by simp
  then show ?thesis by (simp only: append_take_drop_id)
qed





end
